theory Spec2Isabelle
  imports Main
begin

section \<open>The invoker task orchestrator\<close>

text \<open>
  A shallow embedding of the Go package \<^verbatim>\<open>invoker\<close>: the \<^verbatim>\<open>Tasks\<close> struct and its methods
  \<^verbatim>\<open>New\<close>, \<^verbatim>\<open>Add\<close>, \<^verbatim>\<open>do\<close> (behind \<^verbatim>\<open>Run\<close>, \<^verbatim>\<open>Race\<close>, \<^verbatim>\<open>Repeat\<close>), \<^verbatim>\<open>run\<close> and \<^verbatim>\<open>report\<close>.

  Every method body that touches the struct runs under \<^verbatim>\<open>ts.mutex\<close>, so each call is one
  atomic transition of the struct; concurrency is the order in which the goroutines take
  the lock, and is modelled by the order in which the transitions are applied.
\<close>

subsection \<open>Data\<close>

text \<open>The constants \<^verbatim>\<open>modeInit\<close> .. \<^verbatim>\<open>modeDone\<close> of type \<^verbatim>\<open>mode\<close>.\<close>

datatype mode = modeInit | modeRun | modeRace | modeRepeat | modeDone

text \<open>
  A \<^verbatim>\<open>context.Context\<close> is a handle: \<open>NilContext\<close> is the nil interface (the zero value of
  the field \<^verbatim>\<open>ts.ctx\<close>), \<open>Background\<close> a context of the caller, \<open>WithCancel c\<close> the child
  that \<^verbatim>\<open>context.WithCancel(c)\<close> derives.
\<close>

datatype "context" = NilContext | Background | WithCancel "context"

text \<open>
  The value given to \<^verbatim>\<open>panic\<close> is an \<^verbatim>\<open>interface{}\<close>; \<open>None\<close> is the nil interface.
  The bytes of \<^verbatim>\<open>debug.Stack()\<close> are an input of the model.
\<close>

type_synonym panic_value = string
type_synonym stack = string

text \<open>
  Go's \<^verbatim>\<open>error\<close> values: the three package errors, the struct \<^verbatim>\<open>ErrPanic{p, stack}\<close>,
  \<open>CtxErr c\<close> for what \<^verbatim>\<open>c.Err()\<close> returns once \<^verbatim>\<open>c\<close> is done (never nil then), and any
  other error of a task. The nil error is \<open>None\<close> of \<open>error option\<close>.
\<close>

datatype error =
    ErrRunning
  | ErrFinished
  | ErrNoTasks
  | ErrPanic panic_value stack
  | CtxErr "context"
  | TaskErr string

text \<open>
  What a call \<^verbatim>\<open>t(ctx)\<close> of a task ends with: a returned error (nil or not), or a panic
  with its value. A \<^verbatim>\<open>Task\<close> is \<^verbatim>\<open>func(ctx context.Context) (err error)\<close>. How long the call
  blocks is not part of a task here: the moment it ends is the moment its \<^verbatim>\<open>run\<close> is
  applied.
\<close>

datatype outcome = Returns "error option" | Panics "panic_value option"

type_synonym task = "context \<Rightarrow> outcome"

text \<open>
  The struct \<^verbatim>\<open>Tasks\<close> without its mutex. \<open>running\<close> is a Go \<^verbatim>\<open>int\<close>; it counts goroutines,
  so it stays far from the 64-bit bounds and is an unbounded integer here. \<open>cancel\<close> is
  \<open>None\<close> for the nil function and otherwise counts the calls of \<^verbatim>\<open>ts.cancel()\<close> (the token
  \<open>ctx\<close> is cancelled once it is positive; calling it again is allowed). \<open>done_ch\<close> is
  the field \<^verbatim>\<open>done\<close>: \<open>None\<close> for the nil channel, otherwise the values sent on the channel
  so far, oldest first.
\<close>

record Tasks =
  mode :: mode
  pending :: "task list"
  running :: int
  first :: bool
  err :: "error option"
  ctx :: "context"
  cancel :: "nat option"
  done_ch :: "error option list option"

subsection \<open>Library tasks\<close>

text \<open>\<^verbatim>\<open>Wait\<close>: \<^verbatim>\<open><-ctx.Done(); return ctx.Err()\<close>.\<close>

definition Wait :: task where
  "Wait c = Returns (Some (CtxErr c))"

text \<open>\<^verbatim>\<open>Noop\<close>: \<^verbatim>\<open>return nil\<close>.\<close>

definition Noop :: task where
  "Noop c = Returns None"

subsection \<open>Construction and Add\<close>

text \<open>\<^verbatim>\<open>New\<close>: \<^verbatim>\<open>new(Tasks)\<close> is the zero value; then \<^verbatim>\<open>ts.pending = tasks\<close>.\<close>

definition New :: "task list \<Rightarrow> Tasks" where
  "New tasks = \<lparr> mode = modeInit, pending = tasks, running = 0, first = False,
                 err = None, ctx = NilContext, cancel = None, done_ch = None \<rparr>"

text \<open>
  \<^verbatim>\<open>Add\<close> returns the struct and the calls \<^verbatim>\<open>go ts.run(ts.ctx, t)\<close> it starts, in order.
\<close>

definition Add :: "task list \<Rightarrow> Tasks \<Rightarrow> Tasks \<times> (context \<times> task) list" where
  "Add tasks ts =
     (if mode ts = modeInit then (ts\<lparr>pending := pending ts @ tasks\<rparr>, [])
      else (ts\<lparr>running := running ts + int (length tasks)\<rparr>, map (Pair (ctx ts)) tasks))"

subsection \<open>report\<close>

text \<open>
  \<^verbatim>\<open>ts.cancel()\<close>: calling the nil function is a runtime panic, with the mutex held
  (\<open>None\<close>).
\<close>

definition call_cancel :: "Tasks \<Rightarrow> Tasks option" where
  "call_cancel ts =
     (case cancel ts of None \<Rightarrow> None | Some n \<Rightarrow> Some (ts\<lparr>cancel := Some (Suc n)\<rparr>))"

text \<open>
  \<^verbatim>\<open>ch <- v\<close>: a send on the nil channel blocks forever (\<open>None\<close>); otherwise the value is
  added to what was sent.
\<close>

definition chan_send :: "error option \<Rightarrow> error option list option \<Rightarrow> error option list option option" where
  "chan_send v ch = (case ch of None \<Rightarrow> None | Some sent \<Rightarrow> Some (Some (sent @ [v])))"

text \<open>
  \<^verbatim>\<open>report\<close>, the whole body under the lock. \<open>None\<close>: the call never returns (and
  never releases the mutex). In \<open>modeInit\<close> no case of the \<^verbatim>\<open>switch\<close> matches and control
  falls through to the check of \<open>running\<close>.
\<close>

definition report :: "error option \<Rightarrow> Tasks \<Rightarrow> Tasks option" where
  "report e ts0 =
     (let ts1 = ts0\<lparr>running := running ts0 - 1\<rparr> in
      if mode ts1 = modeDone then Some ts1
      else
        (case (if mode ts1 = modeRun \<or> mode ts1 = modeRepeat then
                 (let ts2 = (if err ts1 = None then ts1\<lparr>err := e\<rparr> else ts1) in
                  if e \<noteq> None then call_cancel ts2 else Some ts2)
               else if mode ts1 = modeRace then
                 call_cancel (if first ts1 then ts1\<lparr>err := e, first := False\<rparr> else ts1)
               else Some ts1) of
           None \<Rightarrow> None
         | Some ts3 \<Rightarrow>
             if running ts3 > 0 then Some ts3
             else if mode ts3 \<noteq> modeRepeat \<or> err ts3 \<noteq> None then
               (case chan_send (err ts3) (done_ch ts3) of
                  None \<Rightarrow> None
                | Some ch \<Rightarrow> Some (ts3\<lparr>done_ch := ch, mode := modeDone\<rparr>))
             else Some ts3))"

subsection \<open>run\<close>

text \<open>
  \<^verbatim>\<open>run\<close>: \<^verbatim>\<open>err = t(ctx)\<close> with the deferred function. The flag is the package variable
  \<^verbatim>\<open>Panic\<close> (false by default: panics are caught). When \<^verbatim>\<open>t\<close> panics, \<^verbatim>\<open>err\<close> is still nil.
  \<^verbatim>\<open>recover()\<close> returns the value given to \<^verbatim>\<open>panic\<close> and stops the panic; it returns nil
  when the goroutine is not panicking, and also when the value given to \<^verbatim>\<open>panic\<close> was nil
  (the repository builds with Go 1.16.3). The second component is the panic that leaves
  \<^verbatim>\<open>run\<close>, if one does.
\<close>

definition run :: "bool \<Rightarrow> stack \<Rightarrow> context \<Rightarrow> task \<Rightarrow> Tasks \<Rightarrow> Tasks option \<times> panic_value option option" where
  "run Panic stk c t ts =
     (case t c of
        Returns e \<Rightarrow> (report e ts, None)
      | Panics p \<Rightarrow>
          if \<not> Panic then
            (case p of
               Some v \<Rightarrow> (report (Some (ErrPanic v stk)) ts, None)
             | None \<Rightarrow> (report None ts, None))
          else (report None ts, Some p))"

subsection \<open>do: Run, Race and Repeat\<close>

text \<open>
  \<^verbatim>\<open>do\<close> up to the receive \<^verbatim>\<open><-ts.done\<close>. The result is the error it returns at once
  (\<open>Some\<close>), or \<open>None\<close> when it goes on to wait for the channel; then the struct; then
  the calls of \<^verbatim>\<open>ts.run\<close> it makes, in order: \<^verbatim>\<open>go ts.run(ctx, f)\<close> for \<^verbatim>\<open>tasks[1:]\<close>, then
  \<^verbatim>\<open>ts.run(ctx, tasks[0])\<close> in the caller's goroutine. The deferred \<^verbatim>\<open>cancel()\<close> runs when
  \<^verbatim>\<open>do\<close> returns \<^verbatim>\<open>ErrNoTasks\<close>; the two early returns come before the \<^verbatim>\<open>defer\<close>.
\<close>

definition do :: "context \<Rightarrow> mode \<Rightarrow> Tasks \<Rightarrow> error option \<times> Tasks \<times> (context \<times> task) list" where
  "do parent m ts =
     (case mode ts of
        modeInit \<Rightarrow>
          (let c = WithCancel parent;
               tasks = (if m = modeRepeat then pending ts @ [Wait] else pending ts);
               ts' = ts\<lparr>pending := [], mode := m, ctx := c, cancel := Some 0,
                        done_ch := Some [], first := True, running := int (length tasks)\<rparr>
           in case tasks of
                t0 # rest \<Rightarrow> (None, ts', map (Pair c) rest @ [(c, t0)])
              | [] \<Rightarrow> (Some ErrNoTasks, ts'\<lparr>cancel := Some 1\<rparr>, []))
      | modeDone \<Rightarrow> (Some ErrFinished, ts, [])
      | _ \<Rightarrow> (Some ErrRunning, ts, []))"

text \<open>
  The end of \<^verbatim>\<open>do\<close>: \<^verbatim>\<open>return <-ts.done\<close>, then the deferred \<^verbatim>\<open>cancel()\<close>. \<open>None\<close>: still
  blocked, nothing was sent. The channel has room for one value and \<^verbatim>\<open>do\<close> receives once,
  so it receives the first value sent.
\<close>

definition do_wait :: "Tasks \<Rightarrow> (error option \<times> Tasks) option" where
  "do_wait ts =
     (case done_ch ts of
        Some (v # sent) \<Rightarrow>
          (case call_cancel ts of None \<Rightarrow> None | Some ts' \<Rightarrow> Some (v, ts'))
      | _ \<Rightarrow> None)"

definition Run :: "context \<Rightarrow> Tasks \<Rightarrow> error option \<times> Tasks \<times> (context \<times> task) list" where
  "Run parent ts = do parent modeRun ts"

definition Race :: "context \<Rightarrow> Tasks \<Rightarrow> error option \<times> Tasks \<times> (context \<times> task) list" where
  "Race parent ts = do parent modeRace ts"

definition Repeat :: "context \<Rightarrow> Tasks \<Rightarrow> error option \<times> Tasks \<times> (context \<times> task) list" where
  "Repeat parent ts = do parent modeRepeat ts"

subsection \<open>The older copy of do\<close>

text \<open>
  The repository holds an older copy of the file, without \<^verbatim>\<open>ErrNoTasks\<close> and without the
  panic barrier. Its \<^verbatim>\<open>Add\<close> and \<^verbatim>\<open>report\<close> are the ones above; its \<^verbatim>\<open>do\<close> tests for an
  empty task list before it derives the token, and starts every task with \<^verbatim>\<open>go\<close>.
\<close>

definition do_nil :: "context \<Rightarrow> mode \<Rightarrow> Tasks \<Rightarrow> error option option \<times> Tasks \<times> (context \<times> task) list" where
  "do_nil parent m ts =
     (case mode ts of
        modeInit \<Rightarrow>
          (let tasks = pending ts; ts1 = ts\<lparr>pending := []\<rparr> in
           if length tasks = 0 \<and> m \<noteq> modeRepeat then (Some None, ts1\<lparr>mode := modeDone\<rparr>, [])
           else
             (let c = WithCancel parent in
              (None, ts1\<lparr>mode := m, ctx := c, cancel := Some 0, first := True,
                         running := int (length tasks), done_ch := Some []\<rparr>,
               map (Pair c) tasks)))
      | modeDone \<Rightarrow> (Some (Some ErrFinished), ts, [])
      | _ \<Rightarrow> (Some (Some ErrRunning), ts, []))"

subsection \<open>Runs of the orchestrator\<close>

text \<open>
  Reports applied one after the other, in the order in which their goroutines take the
  mutex. \<open>None\<close> as soon as one of them does not return.
\<close>

fun reports :: "error option list \<Rightarrow> Tasks \<Rightarrow> Tasks option" where
  "reports [] ts = Some ts"
| "reports (e # es) ts = (case report e ts of None \<Rightarrow> None | Some ts' \<Rightarrow> reports es ts')"

text \<open>The first non-nil error of a sequence of outcomes, nil when there is none.\<close>

fun first_failure :: "error option list \<Rightarrow> error option" where
  "first_failure [] = None"
| "first_failure (None # es) = first_failure es"
| "first_failure (Some x # es) = Some x"

text \<open>
  The states a \<^verbatim>\<open>Tasks\<close> value can be in, with the calls of \<^verbatim>\<open>run\<close> that were started and
  have not reported yet: it is made by \<^verbatim>\<open>New\<close> (the zero value is \<open>New []\<close>), and then
  \<^verbatim>\<open>Add\<close>, \<^verbatim>\<open>Run\<close>/\<^verbatim>\<open>Race\<close>/\<^verbatim>\<open>Repeat\<close>, the end of any started \<^verbatim>\<open>run\<close> and the return of
  \<^verbatim>\<open>do\<close> happen in any order, any number of times, with any value of the flag \<^verbatim>\<open>Panic\<close>.
  A task may end at any moment, whatever the state of its token, and the process is
  followed even after a panic left \<^verbatim>\<open>run\<close>: both only add states.
\<close>

inductive reachable :: "Tasks \<Rightarrow> (context \<times> task) list \<Rightarrow> bool" where
  r_new: "reachable (New tasks) []"
| r_add: "reachable ts fl \<Longrightarrow> Add tasks ts = (ts', l) \<Longrightarrow> reachable ts' (fl @ l)"
| r_do: "reachable ts fl \<Longrightarrow> m = modeRun \<or> m = modeRace \<or> m = modeRepeat \<Longrightarrow>
         do parent m ts = (r, ts', l) \<Longrightarrow> reachable ts' (fl @ l)"
| r_run: "reachable ts (xs @ (c, t) # ys) \<Longrightarrow> run Panic stk c t ts = (Some ts', p) \<Longrightarrow>
          reachable ts' (xs @ ys)"
| r_wait: "reachable ts fl \<Longrightarrow> do_wait ts = Some (v, ts') \<Longrightarrow> reachable ts' fl"

text \<open>
  What holds of the fields in every such state: before the start no field is set; during
  the run the token is derived, the cancel function is set and the channel is empty;
  after the run the channel holds the recorded result and nothing else.
\<close>

definition is_derived :: "context \<Rightarrow> bool" where
  "is_derived c = (case c of WithCancel p \<Rightarrow> True | _ \<Rightarrow> False)"

definition fields_ok :: "Tasks \<Rightarrow> bool" where
  "fields_ok ts =
     (case mode ts of
        modeInit \<Rightarrow> running ts = 0 \<and> err ts = None \<and> cancel ts = None \<and> done_ch ts = None
      | modeRun \<Rightarrow> is_derived (ctx ts) \<and> cancel ts \<noteq> None \<and> done_ch ts = Some []
      | modeRace \<Rightarrow> is_derived (ctx ts) \<and> cancel ts \<noteq> None \<and> done_ch ts = Some [] \<and>
                    (first ts \<longrightarrow> err ts = None)
      | modeRepeat \<Rightarrow> is_derived (ctx ts) \<and> cancel ts \<noteq> None \<and> done_ch ts = Some []
      | modeDone \<Rightarrow> is_derived (ctx ts) \<and> cancel ts \<noteq> None \<and> done_ch ts = Some [err ts])"

text \<open>And \<open>running\<close> counts the started calls of \<^verbatim>\<open>run\<close> that have not reported.\<close>

definition tasks_inv :: "Tasks \<Rightarrow> (context \<times> task) list \<Rightarrow> bool" where
  "tasks_inv ts fl \<longleftrightarrow> running ts = int (length fl) \<and> fields_ok ts"

text \<open>
  The states that can follow a given state of a \<^verbatim>\<open>Tasks\<close> value: any number of calls of
  \<^verbatim>\<open>Add\<close>, of \<^verbatim>\<open>Run\<close>/\<^verbatim>\<open>Race\<close>/\<^verbatim>\<open>Repeat\<close>, ends of a \<^verbatim>\<open>run\<close> and returns of \<^verbatim>\<open>do\<close>, in any
  order. Which calls of \<^verbatim>\<open>run\<close> are under way is not followed here, so that any task may
  end at any moment: this only adds states.
\<close>

inductive follows :: "Tasks \<Rightarrow> Tasks \<Rightarrow> bool" where
  f_here: "follows ts ts"
| f_add: "follows ts ts1 \<Longrightarrow> Add tasks ts1 = (ts2, l) \<Longrightarrow> follows ts ts2"
| f_do: "follows ts ts1 \<Longrightarrow> m = modeRun \<or> m = modeRace \<or> m = modeRepeat \<Longrightarrow>
         do parent m ts1 = (r, ts2, l) \<Longrightarrow> follows ts ts2"
| f_run: "follows ts ts1 \<Longrightarrow> run Panic stk c t ts1 = (Some ts2, p) \<Longrightarrow> follows ts ts2"
| f_wait: "follows ts ts1 \<Longrightarrow> do_wait ts1 = Some (v, ts2) \<Longrightarrow> follows ts ts2"

subsection \<open>Tasks of the examples\<close>

text \<open>
  The tasks the examples below run, after the ones of the package's tests: one that
  returns the error \<^verbatim>\<open>fmt.Errorf(s)\<close>, one that calls \<^verbatim>\<open>panic(v)\<close>.
\<close>

definition failing :: "string \<Rightarrow> task" where
  "failing s c = Returns (Some (TaskErr s))"

definition panicking :: "panic_value option \<Rightarrow> task" where
  "panicking v c = Panics v"

section \<open>Properties\<close>

subsection \<open>Steps of report and the invariant\<close>

lemmas report_defs = report_def Let_def call_cancel_def chan_send_def

lemma report_Done:
  "mode ts = modeDone \<Longrightarrow> report e ts = Some (ts\<lparr>running := running ts - 1\<rparr>)"
  by (simp add: report_defs)

lemma report_running:
  "report e ts = Some ts' \<Longrightarrow> running ts' = running ts - 1"
  by (auto simp: report_defs split: if_splits option.splits)

lemma fields_ok_report:
  "fields_ok ts \<Longrightarrow> report e ts = Some ts' \<Longrightarrow> fields_ok ts'"
  by (cases "mode ts")
     (auto simp: fields_ok_def report_defs split: if_splits option.splits)

lemma fields_ok_returns:
  "fields_ok ts \<Longrightarrow> 0 < running ts \<Longrightarrow> \<exists>ts'. report e ts = Some ts'"
  by (cases "mode ts")
     (auto simp: fields_ok_def report_defs split: if_splits option.splits)

lemma inv_report:
  assumes "tasks_inv ts (xs @ (c, t) # ys)" "report e ts = Some ts'"
  shows "tasks_inv ts' (xs @ ys)"
  using assms fields_ok_report[of ts e ts'] report_running[of e ts ts']
  by (simp add: tasks_inv_def)

lemma inv_wait: "tasks_inv ts fl \<Longrightarrow> do_wait ts = Some (v, ts') \<Longrightarrow> tasks_inv ts' fl"
  by (cases "mode ts")
     (auto simp: tasks_inv_def fields_ok_def do_wait_def call_cancel_def split: option.splits list.splits)

lemma inv_add: "tasks_inv ts fl \<Longrightarrow> Add tasks ts = (ts', l) \<Longrightarrow> tasks_inv ts' (fl @ l)"
  by (cases "mode ts") (auto simp: tasks_inv_def fields_ok_def Add_def split: if_splits)

lemma inv_do: "tasks_inv ts fl \<Longrightarrow> m = modeRun \<or> m = modeRace \<or> m = modeRepeat \<Longrightarrow> do parent m ts = (r, ts', l) \<Longrightarrow> tasks_inv ts' (fl @ l)"
  by (cases "mode ts") (auto simp: tasks_inv_def fields_ok_def is_derived_def do_def Let_def split: if_splits list.splits)

lemma run_reports: "\<exists>e. fst (run P stk c t ts) = report e ts"
  by (auto simp: run_def split: outcome.splits option.splits)

lemma inv_run: "tasks_inv ts (xs @ (c, t) # ys) \<Longrightarrow> run P stk c t ts = (Some ts', p) \<Longrightarrow> tasks_inv ts' (xs @ ys)"
proof -
  assume i: "tasks_inv ts (xs @ (c, t) # ys)" and r: "run P stk c t ts = (Some ts', p)"
  from run_reports[of P stk c t ts] r obtain e where "report e ts = Some ts'" by auto
  with i show ?thesis by (rule inv_report)
qed

lemma reachable_inv: "reachable ts fl \<Longrightarrow> tasks_inv ts fl"
proof (induction rule: reachable.induct)
  case (r_new tasks) show ?case by (simp add: tasks_inv_def fields_ok_def New_def)
next
  case r_add then show ?case by (blast intro: inv_add)
next
  case r_do then show ?case by (blast intro: inv_do)
next
  case r_run then show ?case by (blast intro: inv_run)
next
  case r_wait then show ?case by (blast intro: inv_wait)
qed

lemma err_kept_report:
  "fields_ok ts \<Longrightarrow> report e ts = Some ts' \<Longrightarrow> err ts = Some x \<Longrightarrow> err ts' = Some x"
  by (cases "mode ts")
     (auto simp: fields_ok_def report_defs split: if_splits option.splits)

lemma err_kept_reports:
  "fields_ok ts \<Longrightarrow> reports es ts = Some ts' \<Longrightarrow> err ts = Some x \<Longrightarrow> err ts' = Some x"
proof (induction es arbitrary: ts)
  case Nil then show ?case by simp
next
  case (Cons e es)
  then obtain ts1 where r: "report e ts = Some ts1" and rs: "reports es ts1 = Some ts'"
    by (auto split: option.splits)
  from Cons.prems(1) r have ok1: "fields_ok ts1" by (rule fields_ok_report)
  from Cons.prems(1) r Cons.prems(3) have "err ts1 = Some x" by (rule err_kept_report)
  with ok1 rs show ?case by (rule Cons.IH)
qed

lemma fields_ok_reports:
  "fields_ok ts \<Longrightarrow> reports es ts = Some ts' \<Longrightarrow> fields_ok ts'"
proof (induction es arbitrary: ts)
  case Nil then show ?case by simp
next
  case (Cons e es)
  then obtain ts1 where r: "report e ts = Some ts1" and rs: "reports es ts1 = Some ts'"
    by (auto split: option.splits)
  from Cons.prems(1) r have "fields_ok ts1" by (rule fields_ok_report)
  then show ?case using rs by (rule Cons.IH)
qed

lemma first_failure_step:
  "fields_ok ts \<Longrightarrow> mode ts = modeRun \<or> mode ts = modeRepeat \<Longrightarrow> err ts = None \<Longrightarrow>
   report e ts = Some ts' \<Longrightarrow>
   err ts' = e \<and> (mode ts' = mode ts \<or> mode ts' = modeDone)"
  by (auto simp: fields_ok_def report_defs split: if_splits option.splits)

lemma done_err_reports:
  "mode ts = modeDone \<Longrightarrow> reports es ts = Some ts' \<Longrightarrow> err ts' = err ts \<and> mode ts' = modeDone \<and> done_ch ts' = done_ch ts"
proof (induction es arbitrary: ts)
  case Nil then show ?case by simp
next
  case (Cons e es)
  from Cons.prems have rs: "reports es (ts\<lparr>running := running ts - 1\<rparr>) = Some ts'"
    by (simp add: report_Done)
  from Cons.IH[OF _ rs] Cons.prems(1) show ?case by simp
qed

lemma first_failure_reports:
  "fields_ok ts \<Longrightarrow> mode ts = modeRun \<or> mode ts = modeRepeat \<Longrightarrow> err ts = None \<Longrightarrow>
   reports es ts = Some ts' \<Longrightarrow> err ts' = Some x \<Longrightarrow> first_failure es = Some x"
proof (induction es arbitrary: ts)
  case Nil then show ?case by simp
next
  case (Cons e es)
  then obtain ts1 where r: "report e ts = Some ts1" and rs: "reports es ts1 = Some ts'"
    by (auto split: option.splits)
  from Cons.prems(1) r have ok1: "fields_ok ts1" by (rule fields_ok_report)
  from first_failure_step[OF Cons.prems(1,2,3) r]
  have e1: "err ts1 = e" and m1: "mode ts1 = mode ts \<or> mode ts1 = modeDone" by auto
  show ?case
  proof (cases e)
    case (Some y)
    with e1 have "err ts1 = Some y" by simp
    from err_kept_reports[OF ok1 rs this] Cons.prems(5) Some show ?thesis by simp
  next
    case None
    with e1 have n1: "err ts1 = None" by simp
    show ?thesis
    proof (cases "mode ts1 = modeDone")
      case True
      from done_err_reports[OF True rs] n1 Cons.prems(5) show ?thesis by simp
    next
      case False
      with m1 Cons.prems(2) have "mode ts1 = modeRun \<or> mode ts1 = modeRepeat" by auto
      from Cons.IH[OF ok1 this n1 rs Cons.prems(5)] None show ?thesis by simp
    qed
  qed
qed

subsection \<open>Run and Repeat record the first failure\<close>

lemma run_report_value:
  assumes "mode ts = modeRun \<or> mode ts = modeRepeat" "cancel ts = Some n" "done_ch ts = Some []"
  shows "report e ts =
    Some (let r = (case err ts of None \<Rightarrow> e | Some x \<Rightarrow> Some x);
              ts2 = ts\<lparr>running := running ts - 1, err := r,
                       cancel := Some (if e \<noteq> None then Suc n else n)\<rparr>
          in if 1 < running ts \<or> (mode ts = modeRepeat \<and> r = None) then ts2
             else ts2\<lparr>done_ch := Some [r], mode := modeDone\<rparr>)"
  using assms
  by (cases "err ts"; cases e) (auto simp: report_defs)

lemma run_report_step:
  assumes "mode ts = modeRun \<or> mode ts = modeRepeat" "cancel ts \<noteq> None" "done_ch ts = Some []"
  shows "\<exists>ts1. report e ts = Some ts1 \<and>
           err ts1 = (case err ts of None \<Rightarrow> e | Some x \<Rightarrow> Some x) \<and>
           running ts1 = running ts - 1 \<and>
           (if 1 < running ts \<or> (mode ts = modeRepeat \<and> err ts1 = None)
            then mode ts1 = mode ts \<and> done_ch ts1 = Some [] \<and> cancel ts1 \<noteq> None
            else mode ts1 = modeDone \<and> done_ch ts1 = Some [err ts1])"
proof -
  from assms(2) obtain n where n: "cancel ts = Some n" by auto
  show ?thesis
    unfolding run_report_value[OF assms(1) n assms(3)] using assms(3)
    by (simp add: Let_def)
qed

lemma run_reports_bounded:
  assumes "mode ts = modeRun \<or> mode ts = modeRepeat" "cancel ts \<noteq> None" "done_ch ts = Some []"
    "int (length es) \<le> running ts"
  shows "\<exists>ts'. reports es ts = Some ts' \<and>
           err ts' = (case err ts of None \<Rightarrow> first_failure es | Some x \<Rightarrow> Some x) \<and>
           (done_ch ts' = Some [] \<or> done_ch ts' = Some [err ts'])"
  using assms
proof (induction es arbitrary: ts)
  case Nil then show ?case by (simp split: option.splits)
next
  case (Cons e es)
  from run_report_step[OF Cons.prems(1,2,3), of e] obtain ts1 where
    r: "report e ts = Some ts1" and
    e1: "err ts1 = (case err ts of None \<Rightarrow> e | Some x \<Rightarrow> Some x)" and
    n1: "running ts1 = running ts - 1" and
    c1: "if 1 < running ts \<or> (mode ts = modeRepeat \<and> err ts1 = None)
         then mode ts1 = mode ts \<and> done_ch ts1 = Some [] \<and> cancel ts1 \<noteq> None
         else mode ts1 = modeDone \<and> done_ch ts1 = Some [err ts1]"
    by blast
  show ?case
  proof (cases "1 < running ts \<or> (mode ts = modeRepeat \<and> err ts1 = None)")
    case True
    with c1 have m1: "mode ts1 = mode ts" and d1: "done_ch ts1 = Some []" and k1: "cancel ts1 \<noteq> None"
      by auto
    from m1 Cons.prems(1) have m1': "mode ts1 = modeRun \<or> mode ts1 = modeRepeat" by simp
    from n1 Cons.prems(4) have l1: "int (length es) \<le> running ts1" by simp
    from Cons.IH[OF m1' k1 d1 l1] obtain ts' where
      rs: "reports es ts1 = Some ts'" and
      e': "err ts' = (case err ts1 of None \<Rightarrow> first_failure es | Some x \<Rightarrow> Some x)" and
      d': "done_ch ts' = Some [] \<or> done_ch ts' = Some [err ts']" by blast
    from e' e1 have "err ts' = (case err ts of None \<Rightarrow> first_failure (e # es) | Some x \<Rightarrow> Some x)"
      by (cases "err ts"; cases e) auto
    with r rs d' show ?thesis by simp
  next
    case False
    with c1 have m1: "mode ts1 = modeDone" and d1: "done_ch ts1 = Some [err ts1]" by auto
    from False have "running ts \<le> 1" by simp
    with Cons.prems(4) have "es = []" by (cases es) auto
    with r e1 d1 show ?thesis by (cases "err ts"; cases e) auto
  qed
qed

text \<open>
  Claim C1, as amended. In \<open>modeRun\<close> and \<open>modeRepeat\<close> the result that \<^verbatim>\<open>report\<close> records is
  the first failure reported, not the first outcome: starting with no recorded result,
  after the reports of at most \<open>running\<close> tasks, in any order, the field \<open>err\<close> is the first
  non-nil error among them, and nil only when every one of them was a success; it is also
  the value \<^verbatim>\<open>do\<close> returns once the channel was written.
\<close>

theorem run_records_first_failure:
  assumes "mode ts = modeRun \<or> mode ts = modeRepeat" and "err ts = None"
    and "cancel ts \<noteq> None" and "done_ch ts = Some []" and "int (length es) \<le> running ts"
  shows "\<exists>ts'. reports es ts = Some ts' \<and> err ts' = first_failure es \<and>
           (\<forall>v ts''. do_wait ts' = Some (v, ts'') \<longrightarrow> v = first_failure es)"
proof -
  from run_reports_bounded[OF assms(1,3,4,5)] assms(2) obtain ts' where
    rs: "reports es ts = Some ts'" and e': "err ts' = first_failure es" and
    d': "done_ch ts' = Some [] \<or> done_ch ts' = Some [err ts']" by auto
  from d' e' have "\<forall>v ts''. do_wait ts' = Some (v, ts'') \<longrightarrow> v = first_failure es"
    by (auto simp: do_wait_def split: option.splits)
  with rs e' show ?thesis by blast
qed

text \<open>
  The theorem at \<^verbatim>\<open>Run\<close> with three tasks that report nil, \<^verbatim>\<open>hello\<close> and \<^verbatim>\<open>late\<close> in this
  order.
\<close>

theorem run_records_first_failure_witness:
  "mode (fst (snd (do Background modeRun (New [Noop, failing ''hello'', failing ''late''])))) = modeRun \<and>
   err (fst (snd (do Background modeRun (New [Noop, failing ''hello'', failing ''late''])))) = None \<and>
   int (length [None, Some (TaskErr ''hello''), Some (TaskErr ''late'')])
     \<le> running (fst (snd (do Background modeRun (New [Noop, failing ''hello'', failing ''late''])))) \<and>
   map_option err (reports [None, Some (TaskErr ''hello''), Some (TaskErr ''late'')]
      (fst (snd (do Background modeRun (New [Noop, failing ''hello'', failing ''late''])))))
     = Some (Some (TaskErr ''hello''))"
  using run_records_first_failure
    [of "fst (snd (do Background modeRun (New [Noop, failing ''hello'', failing ''late''])))"
        "[None, Some (TaskErr ''hello''), Some (TaskErr ''late'')]"]
  by (simp add: do_def New_def report_defs)

text \<open>
  Claim C1 as stated fails: \<^verbatim>\<open>Run\<close> with two tasks, the first report is a success (nil) and
  the second the error \<^verbatim>\<open>hello\<close>. The recorded result, and the value \<^verbatim>\<open>Run\<close> returns, is
  \<^verbatim>\<open>hello\<close>, not the outcome reported first.
\<close>

theorem first_success_not_recorded:
  "reports [None, Some (TaskErr ''hello'')]
      (fst (snd (do Background modeRun (New [Noop, failing ''hello''])))) =
     Some \<lparr>mode = modeDone, pending = [], running = 0, first = True,
           err = Some (TaskErr ''hello''), ctx = WithCancel Background, cancel = Some 1,
           done_ch = Some [Some (TaskErr ''hello'')]\<rparr> \<and>
   map_option err (reports [None, Some (TaskErr ''hello'')]
      (fst (snd (do Background modeRun (New [Noop, failing ''hello''])))))
     \<noteq> Some (hd [None, Some (TaskErr ''hello'')]) \<and>
   map_option fst (do_wait \<lparr>mode = modeDone, pending = [], running = 0, first = True,
           err = Some (TaskErr ''hello''), ctx = WithCancel Background, cancel = Some 1,
           done_ch = Some [Some (TaskErr ''hello'')]\<rparr>) = Some (Some (TaskErr ''hello''))"
  by (simp add: do_def New_def report_defs do_wait_def)

subsection \<open>The channel is written once\<close>

lemma report_write_cases:
  assumes "fields_ok ts" "0 < running ts" "report e ts = Some ts'"
  shows "if mode ts \<noteq> modeDone \<and> running ts = 1 \<and> (mode ts = modeRepeat \<longrightarrow> err ts' \<noteq> None)
         then mode ts' = modeDone \<and> done_ch ts = Some [] \<and> done_ch ts' = Some [err ts']
         else mode ts' = mode ts \<and> done_ch ts' = done_ch ts"
  using assms
  by (cases "mode ts")
     (auto simp: fields_ok_def report_defs split: if_splits option.splits)

text \<open>
  Claim C2. In every state the orchestrator can be in, the channel \<^verbatim>\<open>done\<close> holds exactly one
  value (the recorded result) when the mode is \<open>modeDone\<close> and has never been written
  otherwise. A report of a started task always returns; it writes the channel exactly when
  the mode is not yet \<open>modeDone\<close> and \<open>running\<close> has reached zero (for \<open>modeRepeat\<close>, with a
  failure recorded), the channel being empty until then, and it sets \<open>modeDone\<close> in the
  same step; in every other case, and always once the mode is \<open>modeDone\<close>, it leaves the
  channel and the mode as they were.
\<close>

theorem done_written_once:
  assumes "reachable ts fl"
  shows "(mode ts = modeDone \<longrightarrow> done_ch ts = Some [err ts]) \<and>
         (mode ts \<noteq> modeDone \<longrightarrow> done_ch ts = None \<or> done_ch ts = Some []) \<and>
         (fl \<noteq> [] \<longrightarrow>
            (\<exists>ts'. report e ts = Some ts' \<and> running ts' = running ts - 1 \<and>
               (if mode ts \<noteq> modeDone \<and> running ts' = 0 \<and>
                   (mode ts = modeRepeat \<longrightarrow> err ts' \<noteq> None)
                then mode ts' = modeDone \<and> done_ch ts = Some [] \<and> done_ch ts' = Some [err ts']
                else mode ts' = mode ts \<and> done_ch ts' = done_ch ts)))"
proof -
  from assms have inv: "tasks_inv ts fl" by (rule reachable_inv)
  then have ok: "fields_ok ts" and n: "running ts = int (length fl)"
    by (simp_all add: tasks_inv_def)
  from ok have a: "mode ts = modeDone \<longrightarrow> done_ch ts = Some [err ts]"
    by (cases "mode ts") (simp_all add: fields_ok_def)
  from ok have b: "mode ts \<noteq> modeDone \<longrightarrow> done_ch ts = None \<or> done_ch ts = Some []"
    by (cases "mode ts") (simp_all add: fields_ok_def)
  have c: "fl \<noteq> [] \<longrightarrow>
            (\<exists>ts'. report e ts = Some ts' \<and> running ts' = running ts - 1 \<and>
               (if mode ts \<noteq> modeDone \<and> running ts' = 0 \<and>
                   (mode ts = modeRepeat \<longrightarrow> err ts' \<noteq> None)
                then mode ts' = modeDone \<and> done_ch ts = Some [] \<and> done_ch ts' = Some [err ts']
                else mode ts' = mode ts \<and> done_ch ts' = done_ch ts))"
  proof
    assume "fl \<noteq> []"
    with n have pos: "0 < running ts" by simp
    from fields_ok_returns[OF ok pos, of e] obtain ts' where r: "report e ts = Some ts'" by blast
    from r have n': "running ts' = running ts - 1" by (rule report_running)
    from report_write_cases[OF ok pos r] n' r
    show "\<exists>ts'. report e ts = Some ts' \<and> running ts' = running ts - 1 \<and>
               (if mode ts \<noteq> modeDone \<and> running ts' = 0 \<and>
                   (mode ts = modeRepeat \<longrightarrow> err ts' \<noteq> None)
                then mode ts' = modeDone \<and> done_ch ts = Some [] \<and> done_ch ts' = Some [err ts']
                else mode ts' = mode ts \<and> done_ch ts' = done_ch ts)"
      by (intro exI[of _ ts']) (simp split: if_splits)
  qed
  from a b c show ?thesis by blast
qed

text \<open>The theorem at \<^verbatim>\<open>Run\<close> with the single task \<^verbatim>\<open>Noop\<close>, when that task reports.\<close>

theorem done_written_once_witness:
  "reachable \<lparr>mode = modeRun, pending = [], running = 1, first = True, err = None,
              ctx = WithCancel Background, cancel = Some 0, done_ch = Some []\<rparr>
     [(WithCancel Background, Noop)] \<and>
   map_option done_ch (report None \<lparr>mode = modeRun, pending = [], running = 1, first = True,
      err = None, ctx = WithCancel Background, cancel = Some 0, done_ch = Some []\<rparr>)
     = Some (Some [None]) \<and>
   map_option mode (report None \<lparr>mode = modeRun, pending = [], running = 1, first = True,
      err = None, ctx = WithCancel Background, cancel = Some 0, done_ch = Some []\<rparr>)
     = Some modeDone"
proof -
  have d: "do Background modeRun (New [Noop]) =
      (None, \<lparr>mode = modeRun, pending = [], running = 1, first = True, err = None,
              ctx = WithCancel Background, cancel = Some 0, done_ch = Some []\<rparr>,
       [(WithCancel Background, Noop)])"
    by (simp add: do_def New_def Let_def)
  have "reachable \<lparr>mode = modeRun, pending = [], running = 1, first = True, err = None,
              ctx = WithCancel Background, cancel = Some 0, done_ch = Some []\<rparr>
     ([] @ [(WithCancel Background, Noop)])"
    by (rule r_do[OF r_new _ d]) simp
  then have r: "reachable \<lparr>mode = modeRun, pending = [], running = 1, first = True, err = None,
              ctx = WithCancel Background, cancel = Some 0, done_ch = Some []\<rparr>
     [(WithCancel Background, Noop)]" by simp
  from done_written_once[OF r, of None] r show ?thesis by (auto simp: report_defs)
qed

subsection \<open>Race records the first outcome\<close>

lemma race_report_value:
  assumes "mode ts = modeRace" "cancel ts = Some n" "done_ch ts = Some []"
  shows "report e ts =
    Some (let ts2 = ts\<lparr>running := running ts - 1, err := (if first ts then e else err ts),
                       first := False, cancel := Some (Suc n)\<rparr>
          in if 1 < running ts then ts2
             else ts2\<lparr>done_ch := Some [err ts2], mode := modeDone\<rparr>)"
  using assms by (cases "first ts") (auto simp: report_defs)

lemma settled_reports:
  assumes "(mode ts = modeRace \<and> \<not> first ts \<and> cancel ts \<noteq> None \<and> done_ch ts = Some []) \<or>
           (mode ts = modeDone \<and> done_ch ts = Some [err ts])"
  shows "\<exists>ts'. reports es ts = Some ts' \<and> err ts' = err ts \<and>
           (done_ch ts' = Some [] \<or> done_ch ts' = Some [err ts])"
  using assms
proof (induction es arbitrary: ts)
  case Nil then show ?case by auto
next
  case (Cons e es)
  from Cons.prems show ?case
  proof
    assume a: "mode ts = modeRace \<and> \<not> first ts \<and> cancel ts \<noteq> None \<and> done_ch ts = Some []"
    then obtain n where n: "cancel ts = Some n" by auto
    let ?ts1 = "let ts2 = ts\<lparr>running := running ts - 1, err := (if first ts then e else err ts),
                       first := False, cancel := Some (Suc n)\<rparr>
          in if 1 < running ts then ts2
             else ts2\<lparr>done_ch := Some [err ts2], mode := modeDone\<rparr>"
    from a n have r: "report e ts = Some ?ts1" by (intro race_report_value) auto
    from a have e1: "err ?ts1 = err ts" by (simp add: Let_def)
    from a have "(mode ?ts1 = modeRace \<and> \<not> first ?ts1 \<and> cancel ?ts1 \<noteq> None \<and> done_ch ?ts1 = Some []) \<or>
           (mode ?ts1 = modeDone \<and> done_ch ?ts1 = Some [err ?ts1])"
      by (simp add: Let_def)
    from Cons.IH[OF this] e1 r show ?thesis by simp
  next
    assume a: "mode ts = modeDone \<and> done_ch ts = Some [err ts]"
    let ?ts1 = "ts\<lparr>running := running ts - 1\<rparr>"
    from a have r: "report e ts = Some ?ts1" by (simp add: report_Done)
    from a have "(mode ?ts1 = modeRace \<and> \<not> first ?ts1 \<and> cancel ?ts1 \<noteq> None \<and> done_ch ?ts1 = Some []) \<or>
           (mode ?ts1 = modeDone \<and> done_ch ?ts1 = Some [err ?ts1])" by simp
    from Cons.IH[OF this] r show ?thesis by simp
  qed
qed

text \<open>
  Claim C3. In \<open>modeRace\<close> every report calls \<^verbatim>\<open>ts.cancel()\<close>; it records its outcome only
  while \<open>first\<close> is set, and clears \<open>first\<close>. So, from a state where \<open>first\<close> is set, after any
  sequence of reports the recorded result is the outcome reported first, a success or a
  failure; nothing else is ever sent on the channel, and it is what \<^verbatim>\<open>do\<close> returns.
\<close>

theorem race_first_outcome:
  assumes "mode ts = modeRace" and "cancel ts = Some n" and "done_ch ts = Some []"
  shows "(\<exists>ts1. report e ts = Some ts1 \<and> cancel ts1 = Some (Suc n) \<and> \<not> first ts1 \<and>
            err ts1 = (if first ts then e else err ts)) \<and>
         (first ts \<longrightarrow>
            (\<exists>ts'. reports (e # es) ts = Some ts' \<and> err ts' = e \<and>
               (done_ch ts' = Some [] \<or> done_ch ts' = Some [e]) \<and>
               (\<forall>v ts''. do_wait ts' = Some (v, ts'') \<longrightarrow> v = e)))"
proof -
  let ?ts1 = "let ts2 = ts\<lparr>running := running ts - 1, err := (if first ts then e else err ts),
                       first := False, cancel := Some (Suc n)\<rparr>
          in if 1 < running ts then ts2
             else ts2\<lparr>done_ch := Some [err ts2], mode := modeDone\<rparr>"
  from assms have r: "report e ts = Some ?ts1" by (rule race_report_value)
  have p1: "cancel ?ts1 = Some (Suc n) \<and> \<not> first ?ts1 \<and> err ?ts1 = (if first ts then e else err ts)"
    by (simp add: Let_def)
  have s1: "(mode ?ts1 = modeRace \<and> \<not> first ?ts1 \<and> cancel ?ts1 \<noteq> None \<and> done_ch ?ts1 = Some []) \<or>
           (mode ?ts1 = modeDone \<and> done_ch ?ts1 = Some [err ?ts1])"
    using assms by (simp add: Let_def)
  from settled_reports[OF s1, of es] obtain ts' where
    rs: "reports es ?ts1 = Some ts'" and e': "err ts' = err ?ts1" and
    d': "done_ch ts' = Some [] \<or> done_ch ts' = Some [err ?ts1]" by blast
  have b: "first ts \<longrightarrow>
            (\<exists>ts'. reports (e # es) ts = Some ts' \<and> err ts' = e \<and>
               (done_ch ts' = Some [] \<or> done_ch ts' = Some [e]) \<and>
               (\<forall>v ts''. do_wait ts' = Some (v, ts'') \<longrightarrow> v = e))"
  proof
    assume f: "first ts"
    with p1 have "err ?ts1 = e" by simp
    with e' d' have e2: "err ts' = e" and d2: "done_ch ts' = Some [] \<or> done_ch ts' = Some [e]"
      by auto
    from d2 have w: "\<forall>v ts''. do_wait ts' = Some (v, ts'') \<longrightarrow> v = e"
      by (auto simp: do_wait_def split: option.splits)
    from r rs have "reports (e # es) ts = Some ts'" by simp
    with e2 d2 w show "\<exists>ts'. reports (e # es) ts = Some ts' \<and> err ts' = e \<and>
               (done_ch ts' = Some [] \<or> done_ch ts' = Some [e]) \<and>
               (\<forall>v ts''. do_wait ts' = Some (v, ts'') \<longrightarrow> v = e)" by blast
  qed
  from r p1 have a: "\<exists>ts1. report e ts = Some ts1 \<and> cancel ts1 = Some (Suc n) \<and> \<not> first ts1 \<and>
            err ts1 = (if first ts then e else err ts)" by blast
  from a b show ?thesis by blast
qed

text \<open>The theorem at \<^verbatim>\<open>Race\<close> with two tasks that report nil and then \<^verbatim>\<open>hello\<close>.\<close>

theorem race_first_outcome_witness:
  "mode (fst (snd (do Background modeRace (New [Noop, failing ''hello''])))) = modeRace \<and>
   cancel (fst (snd (do Background modeRace (New [Noop, failing ''hello''])))) = Some 0 \<and>
   first (fst (snd (do Background modeRace (New [Noop, failing ''hello''])))) \<and>
   map_option err (reports [None, Some (TaskErr ''hello'')]
      (fst (snd (do Background modeRace (New [Noop, failing ''hello''])))))
     = Some None \<and>
   map_option cancel (report None
      (fst (snd (do Background modeRace (New [Noop, failing ''hello''])))))
     = Some (Some 1)"
  using race_first_outcome
    [of "fst (snd (do Background modeRace (New [Noop, failing ''hello''])))" 0
        None "[Some (TaskErr ''hello'')]"]
  by (simp add: do_def New_def report_defs)

subsection \<open>Repeat ends with a failure only\<close>

lemma do_repeat_value:
  assumes "mode ts = modeInit"
  shows "do parent modeRepeat ts =
    (None,
     ts\<lparr>pending := [], mode := modeRepeat, ctx := WithCancel parent, cancel := Some 0,
        done_ch := Some [], first := True, running := int (length (pending ts)) + 1\<rparr>,
     rotate1 (map (Pair (WithCancel parent)) (pending ts @ [Wait])))"
  using assms by (cases "pending ts") (simp_all add: do_def Let_def)

lemma repeat_report_cases:
  assumes "mode ts = modeRepeat" "report e ts = Some ts'"
  shows "if running ts' \<le> 0 \<and> err ts' \<noteq> None
         then mode ts' = modeDone \<and>
              (\<exists>sent. done_ch ts = Some sent \<and> done_ch ts' = Some (sent @ [err ts']))
         else mode ts' = modeRepeat \<and> done_ch ts' = done_ch ts"
  using assms
  by (cases "err ts"; cases e; cases "cancel ts"; cases "done_ch ts"; cases "running ts - 1 > 0")
     (auto simp: report_defs)

lemma repeat_reports_failure:
  assumes "mode ts = modeRepeat" "done_ch ts = Some []" "reports es ts = Some ts'"
  shows "(mode ts' = modeRepeat \<and> done_ch ts' = Some []) \<or>
         (mode ts' = modeDone \<and> (\<exists>x. done_ch ts' = Some [Some x]))"
  using assms
proof (induction es arbitrary: ts)
  case Nil then show ?case by simp
next
  case (Cons e es)
  then obtain ts1 where r: "report e ts = Some ts1" and rs: "reports es ts1 = Some ts'"
    by (auto split: option.splits)
  show ?case
  proof (cases "running ts1 \<le> 0 \<and> err ts1 \<noteq> None")
    case True
    with repeat_report_cases[OF Cons.prems(1) r] Cons.prems(2)
    have m1: "mode ts1 = modeDone" and d1: "done_ch ts1 = Some [err ts1]" by auto
    from True obtain x where x: "err ts1 = Some x" by auto
    from done_err_reports[OF m1 rs] d1 x show ?thesis by simp
  next
    case False
    with repeat_report_cases[OF Cons.prems(1) r] Cons.prems(2)
    have m1: "mode ts1 = modeRepeat" and d1: "done_ch ts1 = Some []" by auto
    from Cons.IH[OF m1 d1 rs] show ?thesis .
  qed
qed

text \<open>
  Claim C4. A start in \<open>modeRepeat\<close> runs the pending tasks and one more, \<^verbatim>\<open>Wait\<close>, added at
  the end of the task list (the calls are listed with \<^verbatim>\<open>tasks[0]\<close>, run by the caller itself,
  last), and counts it in \<open>running\<close>. A report in \<open>modeRepeat\<close> sets \<open>modeDone\<close> and sends
  the recorded result exactly when \<open>running\<close> has come down to zero and a failure is
  recorded; otherwise the mode and the channel stay as they are. So after any sequence of
  reports the channel of a Repeat is either still empty or holds one failure: a Repeat
  never delivers a success.
\<close>

theorem repeat_needs_failure:
  "(mode ts = modeInit \<longrightarrow>
      do parent modeRepeat ts =
        (None,
         ts\<lparr>pending := [], mode := modeRepeat, ctx := WithCancel parent, cancel := Some 0,
            done_ch := Some [], first := True, running := int (length (pending ts)) + 1\<rparr>,
         rotate1 (map (Pair (WithCancel parent)) (pending ts @ [Wait])))) \<and>
   (mode ts = modeRepeat \<and> report e ts = Some ts1 \<longrightarrow>
      (if running ts1 \<le> 0 \<and> err ts1 \<noteq> None
       then mode ts1 = modeDone \<and>
            (\<exists>sent. done_ch ts = Some sent \<and> done_ch ts1 = Some (sent @ [err ts1]))
       else mode ts1 = modeRepeat \<and> done_ch ts1 = done_ch ts)) \<and>
   (mode ts = modeRepeat \<and> done_ch ts = Some [] \<and> reports es ts = Some ts' \<longrightarrow>
      (mode ts' = modeRepeat \<and> done_ch ts' = Some []) \<or>
      (mode ts' = modeDone \<and> (\<exists>x. done_ch ts' = Some [Some x])))"
  using do_repeat_value[of ts parent] repeat_report_cases[of ts e ts1]
    repeat_reports_failure[of ts es ts']
  by blast

text \<open>
  The theorem at \<^verbatim>\<open>Repeat\<close> with the single task \<^verbatim>\<open>Noop\<close>: the start runs \<^verbatim>\<open>Wait\<close> and \<^verbatim>\<open>Noop\<close>;
  when both have reported, \<^verbatim>\<open>Noop\<close> first, the result is the error of \<^verbatim>\<open>Wait\<close>.
\<close>

theorem repeat_needs_failure_witness:
  "mode (New [Noop]) = modeInit \<and>
   snd (snd (do Background modeRepeat (New [Noop]))) =
     [(WithCancel Background, Wait), (WithCancel Background, Noop)] \<and>
   running (fst (snd (do Background modeRepeat (New [Noop])))) = 2 \<and>
   map_option done_ch (reports [None, Some (CtxErr (WithCancel Background))]
        (fst (snd (do Background modeRepeat (New [Noop])))))
     = Some (Some [Some (CtxErr (WithCancel Background))]) \<and>
   map_option done_ch (report None (fst (snd (do Background modeRepeat (New [Noop])))))
     = Some (Some [])"
  using repeat_needs_failure
    [of "New [Noop]" Background None
        "the (report None (fst (snd (do Background modeRepeat (New [Noop])))))"
        "[None, Some (CtxErr (WithCancel Background))]"
        "the (reports [None, Some (CtxErr (WithCancel Background))]
               (fst (snd (do Background modeRepeat (New [Noop])))))"]
  by (simp add: do_def New_def report_defs)

subsection \<open>Starting with no tasks\<close>

text \<open>
  Claim C5. A start of an orchestrator that was not started before fails with
  \<^verbatim>\<open>ErrNoTasks\<close> in \<^verbatim>\<open>Run\<close> and in \<^verbatim>\<open>Race\<close> exactly when no task is pending. \<^verbatim>\<open>Repeat\<close> never
  fails so: with nothing pending it runs the one task \<^verbatim>\<open>Wait\<close>.
\<close>

theorem empty_start_no_tasks:
  assumes "mode ts = modeInit"
  shows "(fst (Run parent ts) = Some ErrNoTasks \<longleftrightarrow> pending ts = []) \<and>
         (fst (Race parent ts) = Some ErrNoTasks \<longleftrightarrow> pending ts = []) \<and>
         fst (Repeat parent ts) = None \<and>
         (pending ts = [] \<longrightarrow>
            snd (snd (Repeat parent ts)) = [(WithCancel parent, Wait)] \<and>
            running (fst (snd (Repeat parent ts))) = 1)"
  using assms
  by (cases "pending ts") (simp_all add: Run_def Race_def Repeat_def do_def Let_def)

text \<open>The theorem at the orchestrator made by \<^verbatim>\<open>New()\<close>.\<close>

theorem empty_start_no_tasks_witness:
  "mode (New []) = modeInit \<and> pending (New []) = [] \<and>
   fst (Run Background (New [])) = Some ErrNoTasks \<and>
   fst (Race Background (New [])) = Some ErrNoTasks \<and>
   fst (Repeat Background (New [])) = None \<and>
   snd (snd (Repeat Background (New []))) = [(WithCancel Background, Wait)]"
  using empty_start_no_tasks [of "New []" Background]
  by (simp add: New_def)

text \<open>
  Once the mode has left \<open>modeInit\<close> a start fails and changes nothing, and no step brings
  the mode back to \<open>modeInit\<close>.
\<close>

lemma do_started:
  "mode ts \<noteq> modeInit \<Longrightarrow>
   do parent m ts = (Some (if mode ts = modeDone then ErrFinished else ErrRunning), ts, [])"
  by (cases "mode ts") (simp_all add: do_def)

lemma started_report:
  "mode ts \<noteq> modeInit \<Longrightarrow> report e ts = Some ts' \<Longrightarrow> mode ts' \<noteq> modeInit"
  by (cases "mode ts")
     (auto simp: report_defs split: if_splits option.splits)

lemma started_run:
  assumes "mode ts \<noteq> modeInit" "run P stk c t ts = (Some ts', p)"
  shows "mode ts' \<noteq> modeInit"
proof -
  from run_reports[of P stk c t ts] assms(2) obtain e where "report e ts = Some ts'" by auto
  with assms(1) show ?thesis by (rule started_report)
qed

lemma started_add: "mode ts \<noteq> modeInit \<Longrightarrow> Add tasks ts = (ts', l) \<Longrightarrow> mode ts' \<noteq> modeInit"
  by (auto simp: Add_def)

lemma started_wait: "mode ts \<noteq> modeInit \<Longrightarrow> do_wait ts = Some (v, ts') \<Longrightarrow> mode ts' \<noteq> modeInit"
  by (auto simp: do_wait_def call_cancel_def split: option.splits list.splits)

lemma started_do:
  assumes "mode ts \<noteq> modeInit" "do parent m ts = (r, ts', l)"
  shows "mode ts' \<noteq> modeInit"
  using assms do_started[of ts parent m] by simp

lemma follows_started: "follows ts ts' \<Longrightarrow> mode ts \<noteq> modeInit \<Longrightarrow> mode ts' \<noteq> modeInit"
proof (induction rule: follows.induct)
  case (f_here ts)
  then show ?case by simp
next
  case (f_add ts ts1 tasks ts2 l)
  from f_add.IH[OF f_add.prems] f_add.hyps(2) show ?case by (rule started_add)
next
  case (f_do ts ts1 m parent r ts2 l)
  from f_do.IH[OF f_do.prems] f_do.hyps(3) show ?case by (rule started_do)
next
  case (f_run ts ts1 Panic stk c t ts2 p)
  from f_run.IH[OF f_run.prems] f_run.hyps(2) show ?case by (rule started_run)
next
  case (f_wait ts ts1 v ts2)
  from f_wait.IH[OF f_wait.prems] f_wait.hyps(2) show ?case by (rule started_wait)
qed

lemma do_no_tasks:
  assumes "mode ts = modeInit" and "pending ts = []" and "m = modeRun \<or> m = modeRace"
  shows "fst (do parent m ts) = Some ErrNoTasks \<and> mode (fst (snd (do parent m ts))) = m"
  using assms by (auto simp: do_def Let_def)

text \<open>
  Claim C6, as amended. The test for an empty task list comes after the mode is set: when
  a \<^verbatim>\<open>Run\<close> or \<^verbatim>\<open>Race\<close> fails with \<^verbatim>\<open>ErrNoTasks\<close> the mode is no longer \<open>modeInit\<close>, and the failed
  start has used up the one start of the orchestrator: in every state that can follow,
  whatever \<^verbatim>\<open>Add\<close>, reports, returns or starts come in between, a start is rejected, with
  \<^verbatim>\<open>ErrFinished\<close> when the mode has become \<open>modeDone\<close> and with \<^verbatim>\<open>ErrRunning\<close> otherwise, and
  changes nothing.
\<close>

theorem no_tasks_start_is_spent:
  assumes "mode ts = modeInit" and "pending ts = []" and "m = modeRun \<or> m = modeRace"
    and "follows (fst (snd (do parent m ts))) ts'"
  shows "fst (do parent m ts) = Some ErrNoTasks \<and>
         mode (fst (snd (do parent m ts))) \<noteq> modeInit \<and>
         mode ts' \<noteq> modeInit \<and>
         do parent' m' ts' =
           (Some (if mode ts' = modeDone then ErrFinished else ErrRunning), ts', [])"
proof -
  from do_no_tasks[OF assms(1,2,3), of parent]
  have e: "fst (do parent m ts) = Some ErrNoTasks" and m: "mode (fst (snd (do parent m ts))) = m"
    by simp_all
  from m assms(3) have s: "mode (fst (snd (do parent m ts))) \<noteq> modeInit" by auto
  from follows_started[OF assms(4) s] have s': "mode ts' \<noteq> modeInit" .
  from do_started[OF s', of parent' m'] e s s' show ?thesis by simp
qed

text \<open>
  The theorem at \<^verbatim>\<open>New()\<close>: \<^verbatim>\<open>Run\<close> fails with \<^verbatim>\<open>ErrNoTasks\<close>; a \<^verbatim>\<open>Race\<close> right after it gets
  \<^verbatim>\<open>ErrRunning\<close>; after \<^verbatim>\<open>Add(Noop)\<close> and the report of that task the mode is \<open>modeDone\<close> and
  a \<^verbatim>\<open>Run\<close> gets \<^verbatim>\<open>ErrFinished\<close>.
\<close>

theorem no_tasks_start_is_spent_witness:
  "mode (New []) = modeInit \<and> pending (New []) = [] \<and>
   fst (do Background modeRun (New [])) = Some ErrNoTasks \<and>
   fst (do Background modeRace (fst (snd (do Background modeRun (New []))))) = Some ErrRunning \<and>
   follows (fst (snd (do Background modeRun (New []))))
     \<lparr>mode = modeDone, pending = [], running = 0, first = True, err = None,
      ctx = WithCancel Background, cancel = Some 1, done_ch = Some [None]\<rparr> \<and>
   fst (do Background modeRun
     \<lparr>mode = modeDone, pending = [], running = 0, first = True, err = None,
      ctx = WithCancel Background, cancel = Some 1, done_ch = Some [None]\<rparr>) = Some ErrFinished"
proof -
  let ?s0 = "fst (snd (do Background modeRun (New [])))"
  let ?s1 = "\<lparr>mode = modeRun, pending = [], running = 1, first = True, err = None,
      ctx = WithCancel Background, cancel = Some 1, done_ch = Some []\<rparr>"
  let ?s2 = "\<lparr>mode = modeDone, pending = [], running = 0, first = True, err = None,
      ctx = WithCancel Background, cancel = Some 1, done_ch = Some [None]\<rparr>"
  have h0: "follows ?s0 ?s0" by (rule f_here)
  have a: "Add [Noop] ?s0 = (?s1, [(WithCancel Background, Noop)])"
    by (simp add: Add_def do_def New_def Let_def)
  have h1: "follows ?s0 ?s1" by (rule f_add[OF h0 a])
  have r: "run False [] (WithCancel Background) Noop ?s1 = (Some ?s2, None)"
    by (simp add: run_def Noop_def report_defs)
  have h2: "follows ?s0 ?s2" by (rule f_run[OF h1 r])
  have i: "mode (New []) = modeInit" and p: "pending (New []) = []" by (simp_all add: New_def)
  have m: "modeRun = modeRun \<or> modeRun = modeRace" by simp
  from no_tasks_start_is_spent[OF i p m h0, of Background modeRace]
       no_tasks_start_is_spent[OF i p m h2, of Background modeRun] i p h2
  show ?thesis by (simp add: do_def New_def Let_def)
qed

text \<open>
  Claim C6 as stated fails: after \<^verbatim>\<open>Run\<close> on \<^verbatim>\<open>New()\<close> has failed with \<^verbatim>\<open>ErrNoTasks\<close> the mode
  is \<open>modeRun\<close>, not \<open>modeInit\<close>, and a second \<^verbatim>\<open>Run\<close> is rejected with \<^verbatim>\<open>ErrRunning\<close>.
\<close>

theorem no_tasks_start_changes_mode:
  "fst (do Background modeRun (New [])) = Some ErrNoTasks \<and>
   mode (fst (snd (do Background modeRun (New [])))) = modeRun \<and>
   mode (fst (snd (do Background modeRun (New [])))) \<noteq> modeInit \<and>
   fst (do Background modeRun (fst (snd (do Background modeRun (New []))))) = Some ErrRunning"
  by (simp add: do_def New_def Let_def)

text \<open>
  The older copy of \<^verbatim>\<open>do\<close> does not keep the orchestrator unstarted either: an empty \<^verbatim>\<open>Run\<close>
  or \<^verbatim>\<open>Race\<close> returns nil and goes to \<open>modeDone\<close>.
\<close>

lemma do_nil_empty:
  assumes "mode ts = modeInit" and "pending ts = []" and "m \<noteq> modeRepeat"
  shows "do_nil parent m ts = (Some None, ts\<lparr>pending := [], mode := modeDone\<rparr>, [])"
  using assms by (simp add: do_nil_def Let_def)

subsection \<open>One start for each orchestrator\<close>

text \<open>
  Claim C7. A start when the mode is not \<open>modeInit\<close> fails and changes nothing: it returns
  \<^verbatim>\<open>ErrFinished\<close> in \<open>modeDone\<close> and \<^verbatim>\<open>ErrRunning\<close> in the three running modes, and starts no
  task. A start from \<open>modeInit\<close> leaves \<open>modeInit\<close>, and no \<^verbatim>\<open>Add\<close>, report or return of \<^verbatim>\<open>do\<close>
  brings the mode back to \<open>modeInit\<close>: after the first start every other start fails.
\<close>

theorem start_only_once:
  "(mode ts \<noteq> modeInit \<longrightarrow>
      do parent m ts = (Some (if mode ts = modeDone then ErrFinished else ErrRunning), ts, []) \<and>
      mode (fst (Add tasks ts)) \<noteq> modeInit \<and>
      (\<forall>ts'. report e ts = Some ts' \<longrightarrow> mode ts' \<noteq> modeInit) \<and>
      (\<forall>v ts'. do_wait ts = Some (v, ts') \<longrightarrow> mode ts' \<noteq> modeInit)) \<and>
   (mode ts = modeInit \<and> (m = modeRun \<or> m = modeRace \<or> m = modeRepeat) \<longrightarrow>
      mode (fst (snd (do parent m ts))) = m)"
proof -
  have a: "mode ts \<noteq> modeInit \<longrightarrow>
      do parent m ts = (Some (if mode ts = modeDone then ErrFinished else ErrRunning), ts, [])"
    by (cases "mode ts") (simp_all add: do_def)
  have b: "mode ts \<noteq> modeInit \<longrightarrow> mode (fst (Add tasks ts)) \<noteq> modeInit"
    by (simp add: Add_def)
  have c: "mode ts \<noteq> modeInit \<longrightarrow> (\<forall>ts'. report e ts = Some ts' \<longrightarrow> mode ts' \<noteq> modeInit)"
    using started_report by blast
  have d: "mode ts \<noteq> modeInit \<longrightarrow> (\<forall>v ts'. do_wait ts = Some (v, ts') \<longrightarrow> mode ts' \<noteq> modeInit)"
    by (auto simp: do_wait_def call_cancel_def split: option.splits list.splits)
  have e: "mode ts = modeInit \<and> (m = modeRun \<or> m = modeRace \<or> m = modeRepeat) \<longrightarrow>
      mode (fst (snd (do parent m ts))) = m"
    by (cases "pending ts") (auto simp: do_def Let_def)
  from a b c d e show ?thesis by blast
qed



text \<open>
  The theorem after \<^verbatim>\<open>Run\<close> with one task: while it runs a second start gives \<^verbatim>\<open>ErrRunning\<close>,
  after its report a start gives \<^verbatim>\<open>ErrFinished\<close>.
\<close>

theorem start_only_once_witness:
  "mode \<lparr>mode = modeRun, pending = [], running = 1, first = True, err = None,
          ctx = WithCancel Background, cancel = Some 0, done_ch = Some []\<rparr> \<noteq> modeInit \<and>
   fst (do Background modeRace
         \<lparr>mode = modeRun, pending = [], running = 1, first = True, err = None,
          ctx = WithCancel Background, cancel = Some 0, done_ch = Some []\<rparr>) = Some ErrRunning \<and>
   fst (do Background modeRun
         \<lparr>mode = modeDone, pending = [], running = 0, first = True, err = None,
          ctx = WithCancel Background, cancel = Some 0, done_ch = Some [None]\<rparr>) = Some ErrFinished"
  using
    start_only_once [of "\<lparr>mode = modeRun, pending = [], running = 1, first = True, err = None,
          ctx = WithCancel Background, cancel = Some 0, done_ch = Some []\<rparr>"
       Background modeRace "[]" None]
    start_only_once [of "\<lparr>mode = modeDone, pending = [], running = 0, first = True, err = None,
          ctx = WithCancel Background, cancel = Some 0, done_ch = Some [None]\<rparr>"
       Background modeRun "[]" None]
  by simp

subsection \<open>The panic barrier of run\<close>

text \<open>
  What \<^verbatim>\<open>run\<close> does in each case. It calls \<^verbatim>\<open>report\<close> once, whatever the task does and whatever
  the flag is. With the flag off (the default) nothing leaves \<^verbatim>\<open>run\<close>, and a panic with a
  value other than nil is reported as \<^verbatim>\<open>ErrPanic\<close> with that value and the stack. With the
  flag on, a panic leaves \<^verbatim>\<open>run\<close> with its value unchanged, after nil was reported.
\<close>

lemma run_catching:
  "run False stk c t ts =
     (report (case t c of Returns e \<Rightarrow> e
              | Panics None \<Rightarrow> None
              | Panics (Some v) \<Rightarrow> Some (ErrPanic v stk)) ts, None)"
  by (simp add: run_def split: outcome.splits option.splits)

lemma run_not_catching:
  "run True stk c t ts =
     (report (case t c of Returns e \<Rightarrow> e | Panics p \<Rightarrow> None) ts,
      case t c of Returns e \<Rightarrow> None | Panics p \<Rightarrow> Some p)"
  by (simp add: run_def split: outcome.splits)

text \<open>
  Claim C8 fails at a task that calls \<^verbatim>\<open>panic(nil)\<close>, with the flag off: \<^verbatim>\<open>recover()\<close> returns
  nil, the test \<^verbatim>\<open>p != nil\<close> fails, and \<^verbatim>\<open>run\<close> reports nil. Here \<^verbatim>\<open>Run\<close> with this one task
  ends with a success and no \<^verbatim>\<open>ErrPanic\<close>: the panic was stopped and lost.
\<close>

theorem nil_panic_reported_as_success:
  "run False ''stack'' (WithCancel Background) (panicking None)
       (fst (snd (do Background modeRun (New [panicking None])))) =
     (Some \<lparr>mode = modeDone, pending = [], running = 0, first = True, err = None,
            ctx = WithCancel Background, cancel = Some 0, done_ch = Some [None]\<rparr>, None) \<and>
   map_option fst (do_wait \<lparr>mode = modeDone, pending = [], running = 0, first = True, err = None,
            ctx = WithCancel Background, cancel = Some 0, done_ch = Some [None]\<rparr>) = Some None"
  by (simp add: run_def panicking_def do_def New_def Let_def report_def call_cancel_def
      chan_send_def do_wait_def)

subsection \<open>Add\<close>

lemma do_run_launches:
  "mode ts = modeInit \<Longrightarrow>
   snd (snd (do parent modeRun ts)) = rotate1 (map (Pair (WithCancel parent)) (pending ts))"
  by (cases "pending ts") (simp_all add: do_def Let_def)

text \<open>
  Claim C9. In \<open>modeInit\<close>, \<^verbatim>\<open>Add\<close> puts the tasks at the end of the pending list, in order, and
  starts nothing; a later \<^verbatim>\<open>Run\<close> calls every pending task once (the calls are listed with
  \<^verbatim>\<open>tasks[0]\<close> last), so the tasks given to \<^verbatim>\<open>New\<close> and to two calls of \<^verbatim>\<open>Add\<close> make as many calls
  as there are tasks. In every other mode, \<open>modeDone\<close> too, \<^verbatim>\<open>Add\<close> adds the number of tasks to
  \<open>running\<close> and starts each with the token \<open>ctx\<close>, which is the derived token in every
  state the orchestrator can be in after its start. A report in \<open>modeDone\<close> only counts
  \<open>running\<close> down: the outcome is dropped.
\<close>

theorem add_pending_or_started:
  "(mode ts = modeInit \<longrightarrow> Add tasks ts = (ts\<lparr>pending := pending ts @ tasks\<rparr>, [])) \<and>
   (mode ts \<noteq> modeInit \<longrightarrow>
      Add tasks ts = (ts\<lparr>running := running ts + int (length tasks)\<rparr>,
                      map (Pair (ctx ts)) tasks)) \<and>
   (mode ts = modeDone \<longrightarrow> report e ts = Some (ts\<lparr>running := running ts - 1\<rparr>)) \<and>
   (reachable ts fl \<and> mode ts \<noteq> modeInit \<longrightarrow> is_derived (ctx ts)) \<and>
   snd (snd (do parent modeRun (fst (Add bs (fst (Add as (New cs))))))) =
     rotate1 (map (Pair (WithCancel parent)) (cs @ as @ bs)) \<and>
   length (snd (snd (do parent modeRun (fst (Add bs (fst (Add as (New cs)))))))) =
     length cs + length as + length bs"
proof -
  have a: "mode ts = modeInit \<longrightarrow> Add tasks ts = (ts\<lparr>pending := pending ts @ tasks\<rparr>, [])"
    by (simp add: Add_def)
  have b: "mode ts \<noteq> modeInit \<longrightarrow>
      Add tasks ts = (ts\<lparr>running := running ts + int (length tasks)\<rparr>,
                      map (Pair (ctx ts)) tasks)"
    by (simp add: Add_def)
  have c: "mode ts = modeDone \<longrightarrow> report e ts = Some (ts\<lparr>running := running ts - 1\<rparr>)"
    by (simp add: report_Done)
  have d: "reachable ts fl \<and> mode ts \<noteq> modeInit \<longrightarrow> is_derived (ctx ts)"
  proof
    assume h: "reachable ts fl \<and> mode ts \<noteq> modeInit"
    then have "fields_ok ts" using reachable_inv[of ts fl] by (simp add: tasks_inv_def)
    with h show "is_derived (ctx ts)" by (cases "mode ts") (simp_all add: fields_ok_def)
  qed
  have m: "mode (fst (Add bs (fst (Add as (New cs))))) = modeInit"
    by (simp add: Add_def New_def)
  have p: "pending (fst (Add bs (fst (Add as (New cs))))) = cs @ as @ bs"
    by (simp add: Add_def New_def)
  from do_run_launches[OF m, of parent] p
  have e: "snd (snd (do parent modeRun (fst (Add bs (fst (Add as (New cs))))))) =
     rotate1 (map (Pair (WithCancel parent)) (cs @ as @ bs))" by simp
  then have f: "length (snd (snd (do parent modeRun (fst (Add bs (fst (Add as (New cs)))))))) =
     length cs + length as + length bs" by simp
  from a b c d e f show ?thesis by blast
qed

text \<open>
  The theorem at the test of the package: \<^verbatim>\<open>New()\<close>, then \<^verbatim>\<open>Add\<close> of three tasks and \<^verbatim>\<open>Add\<close> of
  two, then \<^verbatim>\<open>Run\<close>, which makes five calls; and at an \<^verbatim>\<open>Add\<close> of one task after the end.
\<close>

theorem add_pending_or_started_witness:
  "mode (New []) = modeInit \<and>
   Add [Noop, Noop, Noop] (New []) = ((New [])\<lparr>pending := [Noop, Noop, Noop]\<rparr>, []) \<and>
   length (snd (snd (do Background modeRun
      (fst (Add [Noop, Noop] (fst (Add [Noop, Noop, Noop] (New [])))))))) = 5 \<and>
   Add [Noop] \<lparr>mode = modeDone, pending = [], running = 0, first = True, err = None,
            ctx = WithCancel Background, cancel = Some 1, done_ch = Some [None]\<rparr> =
     (\<lparr>mode = modeDone, pending = [], running = 1, first = True, err = None,
            ctx = WithCancel Background, cancel = Some 1, done_ch = Some [None]\<rparr>,
      [(WithCancel Background, Noop)]) \<and>
   report (Some (TaskErr ''late''))
      \<lparr>mode = modeDone, pending = [], running = 1, first = True, err = None,
            ctx = WithCancel Background, cancel = Some 1, done_ch = Some [None]\<rparr> =
     Some \<lparr>mode = modeDone, pending = [], running = 0, first = True, err = None,
            ctx = WithCancel Background, cancel = Some 1, done_ch = Some [None]\<rparr>"
  using
    add_pending_or_started [of "New []" "[Noop, Noop, Noop]" None "[]" Background
       "[Noop, Noop]" "[Noop, Noop, Noop]" "[]"]
    add_pending_or_started [of "\<lparr>mode = modeDone, pending = [], running = 0, first = True,
            err = None, ctx = WithCancel Background, cancel = Some 1, done_ch = Some [None]\<rparr>"
       "[Noop]" None "[]" Background "[]" "[]" "[]"]
    add_pending_or_started [of "\<lparr>mode = modeDone, pending = [], running = 1, first = True,
            err = None, ctx = WithCancel Background, cancel = Some 1, done_ch = Some [None]\<rparr>"
       "[]" "Some (TaskErr ''late'')" "[]" Background "[]" "[]" "[]"]
  by (simp add: New_def Add_def do_def report_defs)

subsection \<open>A recorded failure is never replaced\<close>

lemma race_first_reports:
  assumes "fields_ok ts" "mode ts = modeRace" "first ts" "reports (e # es) ts = Some ts'"
  shows "err ts' = e"
proof -
  from assms(1,2) obtain n where n: "cancel ts = Some n" and d: "done_ch ts = Some []"
    by (auto simp: fields_ok_def)
  let ?ts1 = "let ts2 = ts\<lparr>running := running ts - 1, err := (if first ts then e else err ts),
                       first := False, cancel := Some (Suc n)\<rparr>
          in if 1 < running ts then ts2
             else ts2\<lparr>done_ch := Some [err ts2], mode := modeDone\<rparr>"
  from assms(2) n d have r: "report e ts = Some ?ts1" by (rule race_report_value)
  from assms(3) have e1: "err ?ts1 = e" by (simp add: Let_def)
  have s1: "(mode ?ts1 = modeRace \<and> \<not> first ?ts1 \<and> cancel ?ts1 \<noteq> None \<and> done_ch ?ts1 = Some []) \<or>
           (mode ?ts1 = modeDone \<and> done_ch ?ts1 = Some [err ?ts1])"
    using assms(2) d by (simp add: Let_def)
  from settled_reports[OF s1, of es] obtain ts2 where
    rs: "reports es ?ts1 = Some ts2" and e2: "err ts2 = err ?ts1" by blast
  from r rs assms(4) have "ts' = ts2" by simp
  with e2 e1 show ?thesis by simp
qed

text \<open>
  Claim C10. In every state the orchestrator can be in, and after any sequence of reports
  from there: a recorded failure stays as it is; in \<open>modeRun\<close> and \<open>modeRepeat\<close>, starting
  with nothing recorded, a failure that is recorded is the first failure of the sequence;
  in \<open>modeRace\<close> with \<open>first\<close> set, what is recorded is the first outcome of the sequence; and
  in \<open>modeDone\<close> the one value on the channel is the recorded result.
\<close>

theorem recorded_failure_is_kept:
  assumes "reachable ts fl" and "reports es ts = Some ts'"
  shows "(err ts = Some x \<longrightarrow> err ts' = Some x) \<and>
         ((mode ts = modeRun \<or> mode ts = modeRepeat) \<and> err ts = None \<and> err ts' = Some x \<longrightarrow>
            first_failure es = Some x) \<and>
         (mode ts = modeRace \<and> first ts \<and> es \<noteq> [] \<longrightarrow> err ts' = hd es) \<and>
         (mode ts' = modeDone \<longrightarrow> done_ch ts' = Some [err ts'])"
proof -
  from assms(1) have ok: "fields_ok ts" using reachable_inv[of ts fl] by (simp add: tasks_inv_def)
  have a: "err ts = Some x \<longrightarrow> err ts' = Some x"
    using err_kept_reports[OF ok assms(2)] by blast
  have b: "(mode ts = modeRun \<or> mode ts = modeRepeat) \<and> err ts = None \<and> err ts' = Some x \<longrightarrow>
            first_failure es = Some x"
    using first_failure_reports[OF ok _ _ assms(2)] by blast
  have c: "mode ts = modeRace \<and> first ts \<and> es \<noteq> [] \<longrightarrow> err ts' = hd es"
  proof
    assume h: "mode ts = modeRace \<and> first ts \<and> es \<noteq> []"
    then obtain e es' where es: "es = e # es'" by (cases es) auto
    with assms(2) have "reports (e # es') ts = Some ts'" by simp
    from race_first_reports[OF ok _ _ this] h es show "err ts' = hd es" by simp
  qed
  from fields_ok_reports[OF ok assms(2)] have ok': "fields_ok ts'" .
  have d: "mode ts' = modeDone \<longrightarrow> done_ch ts' = Some [err ts']"
    using ok' by (cases "mode ts'") (simp_all add: fields_ok_def)
  from a b c d show ?thesis by blast
qed

text \<open>
  The theorem at \<^verbatim>\<open>Run\<close> with two tasks that report \<^verbatim>\<open>hello\<close> and then \<^verbatim>\<open>late\<close>: the result
  delivered is \<^verbatim>\<open>hello\<close>.
\<close>

theorem recorded_failure_is_kept_witness:
  "reachable \<lparr>mode = modeRun, pending = [], running = 2, first = True, err = None,
              ctx = WithCancel Background, cancel = Some 0, done_ch = Some []\<rparr>
     [(WithCancel Background, failing ''late''), (WithCancel Background, failing ''hello'')] \<and>
   reports [Some (TaskErr ''hello''), Some (TaskErr ''late'')]
     \<lparr>mode = modeRun, pending = [], running = 2, first = True, err = None,
      ctx = WithCancel Background, cancel = Some 0, done_ch = Some []\<rparr> =
     Some \<lparr>mode = modeDone, pending = [], running = 0, first = True,
           err = Some (TaskErr ''hello''), ctx = WithCancel Background, cancel = Some 2,
           done_ch = Some [Some (TaskErr ''hello'')]\<rparr> \<and>
   first_failure [Some (TaskErr ''hello''), Some (TaskErr ''late'')] = Some (TaskErr ''hello'')"
proof -
  have d: "do Background modeRun (New [failing ''hello'', failing ''late'']) =
      (None, \<lparr>mode = modeRun, pending = [], running = 2, first = True, err = None,
              ctx = WithCancel Background, cancel = Some 0, done_ch = Some []\<rparr>,
       [(WithCancel Background, failing ''late''), (WithCancel Background, failing ''hello'')])"
    by (simp add: do_def New_def Let_def)
  have "reachable \<lparr>mode = modeRun, pending = [], running = 2, first = True, err = None,
              ctx = WithCancel Background, cancel = Some 0, done_ch = Some []\<rparr>
     ([] @ [(WithCancel Background, failing ''late''), (WithCancel Background, failing ''hello'')])"
    by (rule r_do[OF r_new _ d]) simp
  then have r: "reachable \<lparr>mode = modeRun, pending = [], running = 2, first = True, err = None,
              ctx = WithCancel Background, cancel = Some 0, done_ch = Some []\<rparr>
     [(WithCancel Background, failing ''late''), (WithCancel Background, failing ''hello'')]"
    by simp
  have s: "reports [Some (TaskErr ''hello''), Some (TaskErr ''late'')]
     \<lparr>mode = modeRun, pending = [], running = 2, first = True, err = None,
      ctx = WithCancel Background, cancel = Some 0, done_ch = Some []\<rparr> =
     Some \<lparr>mode = modeDone, pending = [], running = 0, first = True,
           err = Some (TaskErr ''hello''), ctx = WithCancel Background, cancel = Some 2,
           done_ch = Some [Some (TaskErr ''hello'')]\<rparr>"
    by (simp add: report_defs)
  from recorded_failure_is_kept[OF r s, of "TaskErr ''hello''"] r s show ?thesis by simp
qed

end
